theory Spec2Isabelle
  imports Complex_Main
begin

section \<open>Numbers, errors and transfers\<close>

text \<open>
  The expense splitter computes with Python floats. Amounts are modelled as exact real
  numbers: every arithmetic operation of the source is the exact operation here, and
  \<open>round(x, 2)\<close> is rounding to the nearest multiple of one hundredth, a tie going to
  the even hundredth (Python rounds the exact value of its argument, half to even).
  Binary rounding error of individual float operations is not part of the model.
\<close>

definition py_round2 :: "real \<Rightarrow> real" where
  "py_round2 x =
     (let y = x * 100; f = \<lfloor>y\<rfloor>; d = y - of_int f
      in (if d < 1 / 2 then of_int f
          else if 1 / 2 < d then of_int (f + 1)
          else if even f then of_int f else of_int (f + 1)) / 100)"


datatype error = ZeroDivisionError | IndexError

text \<open>
  A settlement line \<open>"{names[d_idx]} pays {pay_amt:.2f} to {names[c_idx]}"\<close> is kept as
  its three components; the rendering of the amount into text is not modelled.
\<close>

record transfer =
  payer :: string
  pay_amt :: real
  payee :: string

section \<open>Web application (app1.py)\<close>

subsection \<open>Balances\<close>

text \<open>
  The comprehension \<open>[round(p - o, 2) for p, o in zip(paid, owed)]\<close> of
  \<open>calc_with_equal_share\<close> and \<open>calc_with_itemized\<close>; \<open>zip\<close> stops at the shorter list.
\<close>

definition balances_of :: "real list \<Rightarrow> real list \<Rightarrow> real list" where
  "balances_of paid owed = map (\<lambda>(p, ow). py_round2 (p - ow)) (zip paid owed)"

text \<open>\<open>calc_with_equal_share\<close>: dividing by \<open>n = len(names) = 0\<close> raises ZeroDivisionError.\<close>

definition calc_with_equal_share ::
  "real \<Rightarrow> real list \<Rightarrow> string list \<Rightarrow> error + (real list \<times> real list)" where
  "calc_with_equal_share total_amount paid names =
     (let n = length names
      in if n = 0 then Inl ZeroDivisionError
         else (let owed_each = replicate n (total_amount / real n);
                   balances = balances_of paid owed_each
               in Inr (owed_each, balances)))"

subsection \<open>Itemized split\<close>

record item =
  name :: string
  amount :: real
  participants :: "string list"

text \<open>\<open>idx = {name: i for i, name in enumerate(names)}\<close>: a later duplicate overwrites.\<close>

definition idx_of :: "string list \<Rightarrow> (string \<rightharpoonup> nat)" where
  "idx_of names = fold (\<lambda>(i, nm) m. m(nm \<mapsto> i)) (enumerate 0 names) Map.empty"

text \<open>
  The inner loop \<open>for person in participants: if person in idx: owed[idx[person]] += share\<close>.
  A person that is not a key of \<open>idx\<close> is skipped; \<open>owed[k]\<close> raises IndexError when
  \<open>k\<close> is not an index of \<open>owed\<close>.
\<close>

fun add_shares :: "(string \<rightharpoonup> nat) \<Rightarrow> real \<Rightarrow> string list \<Rightarrow> real list \<Rightarrow> error + real list" where
  "add_shares idx share [] owed = Inr owed"
| "add_shares idx share (person # ps) owed =
     (case idx person of
        None \<Rightarrow> add_shares idx share ps owed
      | Some k \<Rightarrow>
          if k < length owed then add_shares idx share ps (owed[k := owed ! k + share])
          else Inl IndexError)"

text \<open>
  The loop \<open>for it in items\<close> on the accumulators \<open>owed\<close> and \<open>total_amount\<close>: an item
  with \<open>amount <= 0\<close> or without participants is skipped (\<open>continue\<close>).
\<close>

fun itemized_loop ::
  "(string \<rightharpoonup> nat) \<Rightarrow> item list \<Rightarrow> real list \<Rightarrow> real \<Rightarrow> error + (real list \<times> real)" where
  "itemized_loop idx [] owed total_amount = Inr (owed, total_amount)"
| "itemized_loop idx (it # items) owed total_amount =
     (if amount it \<le> 0 \<or> participants it = [] then itemized_loop idx items owed total_amount
      else (case add_shares idx (amount it / real (length (participants it))) (participants it) owed of
              Inl e \<Rightarrow> Inl e
            | Inr owed' \<Rightarrow> itemized_loop idx items owed' (total_amount + amount it)))"

definition calc_with_itemized ::
  "item list \<Rightarrow> real list \<Rightarrow> string list \<Rightarrow> error + (real \<times> real list \<times> real list)" where
  "calc_with_itemized items paid names =
     (let n = length names;
          idx = idx_of names
      in (case itemized_loop idx items (replicate n 0) 0 of
            Inl e \<Rightarrow> Inl e
          | Inr (owed, total_amount) \<Rightarrow>
              (let owed = map py_round2 owed;
                   balances = balances_of paid owed
               in Inr (total_amount, owed, balances))))"

subsection \<open>Settlement\<close>

text \<open>
  The \<open>while\<close> loop of \<open>settle\<close>. The two lists hold pairs of a participant index and a
  remaining amount; \<open>i\<close> is the debtor cursor and \<open>j\<close> the creditor cursor. The loop
  returns the cursors at exit together with the lines. \<open>names[d_idx]\<close> raises IndexError
  when \<open>names\<close> is too short.
\<close>

function settle_loop ::
  "string list \<Rightarrow> nat \<Rightarrow> nat \<Rightarrow> (nat \<times> real) list \<Rightarrow> (nat \<times> real) list \<Rightarrow> transfer list
     \<Rightarrow> error + (nat \<times> nat \<times> transfer list)" where
  "settle_loop names i j debtors creditors lines =
     (if i < length debtors \<and> j < length creditors then
        (let d_idx = fst (debtors ! i); d_amt = snd (debtors ! i);
             c_idx = fst (creditors ! j); c_amt = snd (creditors ! j);
             pay = min d_amt c_amt
         in if d_idx < length names \<and> c_idx < length names then
              (let lines' = lines @ [\<lparr>payer = names ! d_idx, pay_amt = pay, payee = names ! c_idx\<rparr>];
                   debtors' = debtors[i := (d_idx, d_amt - pay)];
                   creditors' = creditors[j := (c_idx, c_amt - pay)];
                   i' = (if snd (debtors' ! i) < 1 / 100 then i + 1 else i);
                   j' = (if snd (creditors' ! j) < 1 / 100 then j + 1 else j)
               in settle_loop names i' j' debtors' creditors' lines')
            else Inl IndexError)
      else Inr (i, j, lines))"
  by pat_completeness auto
termination
  by (relation "measure (\<lambda>(names, i, j, debtors, creditors, lines).
                   (length debtors - i) + (length creditors - j))")
     (auto simp: min_def)

declare settle_loop.simps [simp del]

text \<open>
  \<open>sorted(..., key=lambda x: x[1], reverse=True)\<close> is a stable sort into descending order
  of the amount: entries of equal amount keep their input order.
\<close>

definition sort_desc :: "(nat \<times> real) list \<Rightarrow> (nat \<times> real) list" where
  "sort_desc xs = sort_key (\<lambda>x. - snd x) xs"

definition creditors_of :: "real list \<Rightarrow> (nat \<times> real) list" where
  "creditors_of balances = filter (\<lambda>(i, bal). bal > 0) (enumerate 0 balances)"

definition debtors_of :: "real list \<Rightarrow> (nat \<times> real) list" where
  "debtors_of balances =
     map (\<lambda>(i, bal). (i, - bal)) (filter (\<lambda>(i, bal). bal < 0) (enumerate 0 balances))"

definition settle :: "real list \<Rightarrow> string list \<Rightarrow> error + transfer list" where
  "settle balances names =
     (let creditors = sort_desc (creditors_of balances);
          debtors = sort_desc (debtors_of balances)
      in case settle_loop names 0 0 debtors creditors [] of
           Inl e \<Rightarrow> Inl e
         | Inr (i, j, lines) \<Rightarrow> Inr lines)"

section \<open>Desktop application (main.py)\<close>

text \<open>
  The settlement loop of \<open>ExpenseSplitterApp.calculate_split\<close>. It differs from the web
  loop in its two tests: a cursor advances only when the remainder is exactly zero.
\<close>

function split_loop ::
  "string list \<Rightarrow> nat \<Rightarrow> nat \<Rightarrow> (nat \<times> real) list \<Rightarrow> (nat \<times> real) list \<Rightarrow> transfer list
     \<Rightarrow> error + (nat \<times> nat \<times> transfer list)" where
  "split_loop names i j debtors creditors lines =
     (if i < length debtors \<and> j < length creditors then
        (let d_idx = fst (debtors ! i); d_amt = snd (debtors ! i);
             c_idx = fst (creditors ! j); c_amt = snd (creditors ! j);
             pay = min d_amt c_amt
         in if d_idx < length names \<and> c_idx < length names then
              (let lines' = lines @ [\<lparr>payer = names ! d_idx, pay_amt = pay, payee = names ! c_idx\<rparr>];
                   debtors' = debtors[i := (d_idx, d_amt - pay)];
                   creditors' = creditors[j := (c_idx, c_amt - pay)];
                   i' = (if snd (debtors' ! i) = 0 then i + 1 else i);
                   j' = (if snd (creditors' ! j) = 0 then j + 1 else j)
               in split_loop names i' j' debtors' creditors' lines')
            else Inl IndexError)
      else Inr (i, j, lines))"
  by pat_completeness auto
termination
  by (relation "measure (\<lambda>(names, i, j, debtors, creditors, lines).
                   (length debtors - i) + (length creditors - j))")
     (auto simp: min_def)

declare split_loop.simps [simp del]

text \<open>
  \<open>calculate_split\<close> from the computation of \<open>equal_share\<close> on. \<open>names\<close> and
  \<open>contributions\<close> are the lists read from the form, one entry for each of the
  \<open>total_people\<close> rows; the summary loop indexes both up to \<open>total_people\<close>. The
  creditor and debtor lists are used in input order.
\<close>

definition calculate_split ::
  "int \<Rightarrow> real \<Rightarrow> string list \<Rightarrow> real list \<Rightarrow> error + (real list \<times> transfer list)" where
  "calculate_split total_people total_amount names contributions =
     (if total_people = 0 then Inl ZeroDivisionError
      else (let equal_share = total_amount / of_int total_people;
                balances = map (\<lambda>paid. py_round2 (paid - equal_share)) contributions;
                creditors = creditors_of balances;
                debtors = debtors_of balances
            in if int (length names) < total_people \<or> int (length balances) < total_people
               then Inl IndexError
               else (case split_loop names 0 0 debtors creditors [] of
                       Inl e \<Rightarrow> Inl e
                     | Inr (i, j, lines) \<Rightarrow> Inr (balances, lines))))"

section \<open>The matching as a recursion on the unprocessed entries\<close>

definition render :: "string list \<Rightarrow> nat \<times> real \<times> nat \<Rightarrow> transfer" where
  "render names = (\<lambda>(d, a, c). \<lparr>payer = names ! d, pay_amt = a, payee = names ! c\<rparr>)"

definition settled :: "bool \<Rightarrow> real \<Rightarrow> bool" where
  "settled tol x = (if tol then x < 1 / 100 else x = 0)"

function greedy :: "bool \<Rightarrow> (nat \<times> real) list \<Rightarrow> (nat \<times> real) list \<Rightarrow> (nat \<times> real \<times> nat) list" where
  "greedy tol [] cs = []"
| "greedy tol (x # ds) [] = []"
| "greedy tol ((d, da) # ds) ((c, ca) # cs) =
     (d, min da ca, c) #
       greedy tol (if settled tol (da - min da ca) then ds else (d, da - min da ca) # ds)
                  (if settled tol (ca - min da ca) then cs else (c, ca - min da ca) # cs)"
  by pat_completeness auto

termination
  by (relation "measure (\<lambda>(tol, ds, cs). length ds + length cs)")
     (auto simp: settled_def min_def)

definition in_range :: "nat \<Rightarrow> (nat \<times> real \<times> nat) list \<Rightarrow> bool" where
  "in_range n g = (\<forall>(d, a, c) \<in> set g. d < n \<and> c < n)"

definition all_pos :: "(nat \<times> real) list \<Rightarrow> bool" where
  "all_pos xs = (\<forall>x \<in> set xs. 0 < snd x)"





definition web_matching :: "real list \<Rightarrow> (nat \<times> real \<times> nat) list" where
  "web_matching b = greedy True (sort_desc (debtors_of b)) (sort_desc (creditors_of b))"

definition desktop_matching :: "real list \<Rightarrow> (nat \<times> real \<times> nat) list" where
  "desktop_matching b = greedy False (debtors_of b) (creditors_of b)"

definition nonzero_count :: "real list \<Rightarrow> nat" where
  "nonzero_count balances = length (filter (\<lambda>b. b \<noteq> 0) balances)"

text \<open>
  What claim C10 asks of a transfer: its payer is the name at a position whose input
  balance is negative, its payee the name at a position whose input balance is positive.
\<close>

definition sound_transfer :: "real list \<Rightarrow> string list \<Rightarrow> transfer \<Rightarrow> bool" where
  "sound_transfer balances names t =
     (\<exists>d \<in> {..<length balances}. \<exists>c \<in> {..<length balances}.
        balances ! d < 0 \<and> 0 < balances ! c \<and> d < length names \<and> c < length names \<and>
        payer t = names ! d \<and> payee t = names ! c)"



text \<open>
  The itemized calculation, accumulator by accumulator. An item takes part when it is not
  skipped by \<open>if amount <= 0 or not participants: continue\<close>; its share is its amount
  divided by the number of names it lists. \<open>total_of\<close> is \<open>total_amount\<close> after the loop
  over the items, started at \<open>t0\<close>. \<open>owed_acc idx k\<close> is the accumulator \<open>owed[k]\<close> after
  the loop, started at \<open>a0\<close>: the shares are added in the order of the items and of the
  names in an item, one addition for each listed name that \<open>idx\<close> sends to \<open>k\<close>.
\<close>

definition valid_item :: "item \<Rightarrow> bool" where
  "valid_item it = (\<not> (amount it \<le> 0 \<or> participants it = []))"

definition share_of :: "item \<Rightarrow> real" where
  "share_of it = amount it / real (length (participants it))"

definition total_of :: "item list \<Rightarrow> real \<Rightarrow> real" where
  "total_of items t0 = fold (\<lambda>it t. t + amount it) (filter valid_item items) t0"

definition owed_acc :: "(string \<rightharpoonup> nat) \<Rightarrow> nat \<Rightarrow> item list \<Rightarrow> real \<Rightarrow> real" where
  "owed_acc idx k items a0 =
     fold (\<lambda>it acc. fold (\<lambda>p a. if idx p = Some k then a + share_of it else a) (participants it) acc)
          (filter valid_item items) a0"

section \<open>Auxiliary lemmas\<close>

lemma drop_upd_same: "i < length xs \<Longrightarrow> drop i (xs[i := x]) = x # drop (Suc i) xs"
  by (simp add: Cons_nth_drop_Suc [symmetric])

lemma greedy_exhausted:
  "\<not> (i < length ds \<and> j < length cs) \<Longrightarrow> greedy tol (drop i ds) (drop j cs) = []"
proof (cases "drop i ds")
  case Nil
  then show ?thesis by simp
next
  case (Cons x xs)
  assume "\<not> (i < length ds \<and> j < length cs)"
  with Cons have "drop j cs = []" by (cases "i < length ds") auto
  with Cons show ?thesis by simp
qed

lemma settle_loop_greedy:
  "(in_range (length names) (greedy True (drop i ds) (drop j cs)) \<longrightarrow>
      (\<exists>i' j'. settle_loop names i j ds cs lines
                 = Inr (i', j', lines @ map (render names) (greedy True (drop i ds) (drop j cs)))
               \<and> (length ds \<le> i' \<or> length cs \<le> j'))) \<and>
   (\<not> in_range (length names) (greedy True (drop i ds) (drop j cs)) \<longrightarrow>
      settle_loop names i j ds cs lines = Inl IndexError)"
proof (induction names i j ds cs lines rule: settle_loop.induct)
  case (1 names i j ds cs lines)
  show ?case
  proof (cases "i < length ds \<and> j < length cs")
    case False
    then have "greedy True (drop i ds) (drop j cs) = []"
      by (rule greedy_exhausted)
    with False show ?thesis
      by (subst settle_loop.simps) (auto simp: in_range_def)
  next
    case True
    then have il: "i < length ds" and jl: "j < length cs" by auto
    define d da c ca p where "d = fst (ds ! i)" and "da = snd (ds ! i)"
      and "c = fst (cs ! j)" and "ca = snd (cs ! j)" and "p = min da ca"
    define ds' cs' i' j' where "ds' = ds[i := (d, da - p)]" and "cs' = cs[j := (c, ca - p)]"
      and "i' = (if snd (ds' ! i) < 1 / 100 then i + 1 else i)"
      and "j' = (if snd (cs' ! j) < 1 / 100 then j + 1 else j)"
    have dd: "drop i ds = (d, da) # drop (Suc i) ds"
      using il by (simp add: d_def da_def Cons_nth_drop_Suc)
    have dc: "drop j cs = (c, ca) # drop (Suc j) cs"
      using jl by (simp add: c_def ca_def Cons_nth_drop_Suc)
    have d2: "drop i' ds' = (if settled True (da - p) then drop (Suc i) ds
                             else (d, da - p) # drop (Suc i) ds)"
      using il by (simp add: i'_def ds'_def settled_def drop_upd_same)
    have c2: "drop j' cs' = (if settled True (ca - p) then drop (Suc j) cs
                             else (c, ca - p) # drop (Suc j) cs)"
      using jl by (simp add: j'_def cs'_def settled_def drop_upd_same)
    have g: "greedy True (drop i ds) (drop j cs)
             = (d, p, c) # greedy True (drop i' ds') (drop j' cs')"
      by (simp add: dd dc d2 c2 p_def)
    show ?thesis
    proof (cases "d < length names \<and> c < length names")
      case rng: True
      note ih = "1.IH" [OF True d_def da_def c_def ca_def p_def rng refl ds'_def cs'_def
          i'_def j'_def]
      have step: "settle_loop names i j ds cs lines
                  = settle_loop names i' j' ds' cs' (lines @ [render names (d, p, c)])"
        using True rng
        by (subst settle_loop.simps)
           (simp add: Let_def render_def d_def da_def c_def ca_def p_def ds'_def cs'_def
              i'_def j'_def)
      have r: "in_range (length names) (greedy True (drop i ds) (drop j cs))
               = in_range (length names) (greedy True (drop i' ds') (drop j' cs'))"
        using rng by (simp add: g in_range_def)
      from ih show ?thesis
        by (simp add: step r) (simp add: g ds'_def cs'_def render_def)
    next
      case False
      then have "\<not> in_range (length names) (greedy True (drop i ds) (drop j cs))"
        by (auto simp: g in_range_def)
      moreover from False
      have nr: "\<not> (fst (ds ! i) < length names \<and> fst (cs ! j) < length names)"
        by (simp add: d_def c_def)
      have "settle_loop names i j ds cs lines = Inl IndexError"
        by (subst settle_loop.simps) (simp only: True nr Let_def if_True if_False simp_thms)
      ultimately show ?thesis by simp
    qed
  qed
qed

lemma split_loop_greedy:
  "(in_range (length names) (greedy False (drop i ds) (drop j cs)) \<longrightarrow>
      (\<exists>i' j'. split_loop names i j ds cs lines
                 = Inr (i', j', lines @ map (render names) (greedy False (drop i ds) (drop j cs)))
               \<and> (length ds \<le> i' \<or> length cs \<le> j'))) \<and>
   (\<not> in_range (length names) (greedy False (drop i ds) (drop j cs)) \<longrightarrow>
      split_loop names i j ds cs lines = Inl IndexError)"
proof (induction names i j ds cs lines rule: split_loop.induct)
  case (1 names i j ds cs lines)
  show ?case
  proof (cases "i < length ds \<and> j < length cs")
    case False
    then have "greedy False (drop i ds) (drop j cs) = []"
      by (rule greedy_exhausted)
    with False show ?thesis
      by (subst split_loop.simps) (auto simp: in_range_def)
  next
    case True
    then have il: "i < length ds" and jl: "j < length cs" by auto
    define d da c ca p where "d = fst (ds ! i)" and "da = snd (ds ! i)"
      and "c = fst (cs ! j)" and "ca = snd (cs ! j)" and "p = min da ca"
    define ds' cs' i' j' where "ds' = ds[i := (d, da - p)]" and "cs' = cs[j := (c, ca - p)]"
      and "i' = (if snd (ds' ! i) = 0 then i + 1 else i)"
      and "j' = (if snd (cs' ! j) = 0 then j + 1 else j)"
    have dd: "drop i ds = (d, da) # drop (Suc i) ds"
      using il by (simp add: d_def da_def Cons_nth_drop_Suc)
    have dc: "drop j cs = (c, ca) # drop (Suc j) cs"
      using jl by (simp add: c_def ca_def Cons_nth_drop_Suc)
    have d2: "drop i' ds' = (if settled False (da - p) then drop (Suc i) ds
                             else (d, da - p) # drop (Suc i) ds)"
      using il by (simp add: i'_def ds'_def settled_def drop_upd_same)
    have c2: "drop j' cs' = (if settled False (ca - p) then drop (Suc j) cs
                             else (c, ca - p) # drop (Suc j) cs)"
      using jl by (simp add: j'_def cs'_def settled_def drop_upd_same)
    have g: "greedy False (drop i ds) (drop j cs)
             = (d, p, c) # greedy False (drop i' ds') (drop j' cs')"
      by (simp add: dd dc d2 c2 p_def)
    show ?thesis
    proof (cases "d < length names \<and> c < length names")
      case rng: True
      note ih = "1.IH" [OF True d_def da_def c_def ca_def p_def rng refl ds'_def cs'_def
          i'_def j'_def]
      have step: "split_loop names i j ds cs lines
                  = split_loop names i' j' ds' cs' (lines @ [render names (d, p, c)])"
        using True rng
        by (subst split_loop.simps)
           (simp add: Let_def render_def d_def da_def c_def ca_def p_def ds'_def cs'_def
              i'_def j'_def)
      have r: "in_range (length names) (greedy False (drop i ds) (drop j cs))
               = in_range (length names) (greedy False (drop i' ds') (drop j' cs'))"
        using rng by (simp add: g in_range_def)
      from ih show ?thesis
        by (simp add: step r) (simp add: g ds'_def cs'_def render_def)
    next
      case False
      then have "\<not> in_range (length names) (greedy False (drop i ds) (drop j cs))"
        by (auto simp: g in_range_def)
      moreover from False
      have nr: "\<not> (fst (ds ! i) < length names \<and> fst (cs ! j) < length names)"
        by (simp add: d_def c_def)
      have "split_loop names i j ds cs lines = Inl IndexError"
        by (subst split_loop.simps) (simp only: True nr Let_def if_True if_False simp_thms)
      ultimately show ?thesis by simp
    qed
  qed
qed

lemma settled_zero: "settled tol 0"
  by (simp add: settled_def)

lemma settled_min: "settled tol (da - min da ca) \<or> settled tol (ca - min da ca)"
  by (auto simp: settled_def min_def)

lemma greedy_length: "length (greedy tol ds cs) \<le> length ds + length cs - 1"
proof (induction tol ds cs rule: greedy.induct)
  case (3 tol d da ds c ca cs)
  let ?ds = "if settled tol (da - min da ca) then ds else (d, da - min da ca) # ds"
  let ?cs = "if settled tol (ca - min da ca) then cs else (c, ca - min da ca) # cs"
  have "length ?ds + length ?cs \<le> length ds + length cs + 1"
    using settled_min [of tol da ca] by auto
  with "3.IH" have "length (greedy tol ?ds ?cs) \<le> length ds + length cs"
    by linarith
  then show ?case by simp
qed simp_all

lemma greedy_members:
  "(d, a, c) \<in> set (greedy tol ds cs) \<Longrightarrow> d \<in> fst ` set ds \<and> c \<in> fst ` set cs"
proof (induction tol ds cs rule: greedy.induct)
  case (3 tol d' da ds c' ca cs)
  let ?ds = "if settled tol (da - min da ca) then ds else (d', da - min da ca) # ds"
  let ?cs = "if settled tol (ca - min da ca) then cs else (c', ca - min da ca) # cs"
  have sd: "fst ` set ?ds \<subseteq> insert d' (fst ` set ds)" by auto
  have sc: "fst ` set ?cs \<subseteq> insert c' (fst ` set cs)" by auto
  from "3.prems" have "(d, a, c) = (d', min da ca, c') \<or> (d, a, c) \<in> set (greedy tol ?ds ?cs)"
    by simp
  then show ?case
  proof
    assume "(d, a, c) = (d', min da ca, c')"
    then show ?thesis by simp
  next
    assume "(d, a, c) \<in> set (greedy tol ?ds ?cs)"
    then have "d \<in> fst ` set ?ds \<and> c \<in> fst ` set ?cs" by (rule "3.IH")
    with sd sc have "d \<in> insert d' (fst ` set ds) \<and> c \<in> insert c' (fst ` set cs)" by blast
    then show ?thesis by simp
  qed
qed simp_all

lemma greedy_pos:
  "all_pos ds \<Longrightarrow> all_pos cs \<Longrightarrow> (d, a, c) \<in> set (greedy tol ds cs) \<Longrightarrow> 0 < a"
proof (induction tol ds cs rule: greedy.induct)
  case (3 tol d' da ds c' ca cs)
  have nd: "\<not> settled tol (da - min da ca) \<Longrightarrow> 0 < da - min da ca"
    by (auto simp: settled_def min_def split: if_splits)
  have nc: "\<not> settled tol (ca - min da ca) \<Longrightarrow> 0 < ca - min da ca"
    by (auto simp: settled_def min_def split: if_splits)
  let ?ds = "if settled tol (da - min da ca) then ds else (d', da - min da ca) # ds"
  let ?cs = "if settled tol (ca - min da ca) then cs else (c', ca - min da ca) # cs"
  from "3.prems" nd have pd: "all_pos ?ds" by (auto simp: all_pos_def)
  from "3.prems" nc have pc: "all_pos ?cs" by (auto simp: all_pos_def)
  from "3.prems"(3) have "(d, a, c) = (d', min da ca, c') \<or> (d, a, c) \<in> set (greedy tol ?ds ?cs)"
    by simp
  then show ?case
  proof
    assume "(d, a, c) = (d', min da ca, c')"
    with "3.prems" show ?thesis by (auto simp: all_pos_def)
  next
    assume "(d, a, c) \<in> set (greedy tol ?ds ?cs)"
    with "3.IH" [OF pd pc] show ?thesis .
  qed
qed simp_all

lemma greedy_order:
  "sorted_wrt (\<lambda>x y. w (fst y) \<le> (w (fst x) :: real)) ds \<Longrightarrow>
   sorted_wrt (\<lambda>x y. v (fst y) \<le> (v (fst x) :: real)) cs \<Longrightarrow>
   sorted_wrt (\<lambda>(d, a, c) (d', a', c'). w d' \<le> w d \<and> v c' \<le> v c) (greedy tol ds cs)"
proof (induction tol ds cs rule: greedy.induct)
  case (3 tol d da ds c ca cs)
  let ?ds = "if settled tol (da - min da ca) then ds else (d, da - min da ca) # ds"
  let ?cs = "if settled tol (ca - min da ca) then cs else (c, ca - min da ca) # cs"
  from "3.prems" have sd: "sorted_wrt (\<lambda>x y. w (fst y) \<le> w (fst x)) ?ds"
    and sc: "sorted_wrt (\<lambda>x y. v (fst y) \<le> v (fst x)) ?cs" by auto
  have rest: "sorted_wrt (\<lambda>(d, a, c) (d', a', c'). w d' \<le> w d \<and> v c' \<le> v c) (greedy tol ?ds ?cs)"
    using sd sc by (rule "3.IH")
  from "3.prems" have wd: "\<forall>y \<in> set ds. w (fst y) \<le> w d"
    and vc: "\<forall>y \<in> set cs. v (fst y) \<le> v c" by simp_all
  have hd: "\<forall>x \<in> set (greedy tol ?ds ?cs). case x of (d', a', c') \<Rightarrow> w d' \<le> w d \<and> v c' \<le> v c"
  proof (clarify)
    fix d' a' c'
    assume "(d', a', c') \<in> set (greedy tol ?ds ?cs)"
    from greedy_members [OF this] have "d' \<in> fst ` set ?ds" and "c' \<in> fst ` set ?cs"
      by blast+
    then have "d' \<in> insert d (fst ` set ds)" and "c' \<in> insert c (fst ` set cs)"
      by (auto split: if_splits)
    with wd vc show "w d' \<le> w d \<and> v c' \<le> v c" by auto
  qed
  have "greedy tol ((d, da) # ds) ((c, ca) # cs) = (d, min da ca, c) # greedy tol ?ds ?cs"
    by simp
  with rest hd show ?case by (simp only: sorted_wrt.simps prod.case) 
qed simp_all











lemma debtors_of_iff: "(k, a) \<in> set (debtors_of b) \<longleftrightarrow> k < length b \<and> b ! k < 0 \<and> a = - b ! k"
  by (auto simp: debtors_of_def in_set_enumerate_eq image_iff)

lemma creditors_of_iff: "(k, a) \<in> set (creditors_of b) \<longleftrightarrow> k < length b \<and> 0 < b ! k \<and> a = b ! k"
  by (auto simp: creditors_of_def in_set_enumerate_eq)

lemma set_sort_desc: "set (sort_desc xs) = set xs"
  by (simp add: sort_desc_def)

lemma length_sort_desc: "length (sort_desc xs) = length xs"
  by (simp add: sort_desc_def)

lemma settle_web:
  "settle b names = (if in_range (length names) (web_matching b)
                     then Inr (map (render names) (web_matching b)) else Inl IndexError)"
  using settle_loop_greedy [of names 0 "sort_desc (debtors_of b)" 0 "sort_desc (creditors_of b)" "[]"]
  by (auto simp: settle_def web_matching_def Let_def)

lemma split_desktop:
  "calculate_split total_people total_amount names contributions =
     (if total_people = 0 then Inl ZeroDivisionError
      else let b = map (\<lambda>paid. py_round2 (paid - total_amount / of_int total_people)) contributions
           in if int (length names) < total_people \<or> int (length b) < total_people
              then Inl IndexError
              else if in_range (length names) (desktop_matching b)
                   then Inr (b, map (render names) (desktop_matching b)) else Inl IndexError)"
proof -
  define b where "b = map (\<lambda>paid. py_round2 (paid - total_amount / of_int total_people)) contributions"
  have lb: "length b = length contributions" by (simp add: b_def)
  from split_loop_greedy [of names 0 "debtors_of b" 0 "creditors_of b" "[]"] lb
  show ?thesis
    by (auto simp: calculate_split_def desktop_matching_def Let_def b_def [symmetric])
qed

lemma web_matching_facts:
  assumes "(d, a, c) \<in> set (web_matching b)"
  shows "d < length b \<and> c < length b \<and> b ! d < 0 \<and> 0 < b ! c \<and> 0 < a"
proof -
  let ?ds = "sort_desc (debtors_of b)" and ?cs = "sort_desc (creditors_of b)"
  have pd: "all_pos ?ds" and pc: "all_pos ?cs"
    by (auto simp: all_pos_def set_sort_desc debtors_of_iff creditors_of_iff)
  from assms have m: "(d, a, c) \<in> set (greedy True ?ds ?cs)" by (simp add: web_matching_def)
  from greedy_pos [OF pd pc m] have "0 < a" .
  moreover from greedy_members [OF m] have "d \<in> fst ` set (debtors_of b)" "c \<in> fst ` set (creditors_of b)"
    by (simp_all add: set_sort_desc)
  ultimately show ?thesis
    by (auto simp: debtors_of_iff creditors_of_iff)
qed

lemma desktop_matching_facts:
  assumes "(d, a, c) \<in> set (desktop_matching b)"
  shows "d < length b \<and> c < length b \<and> b ! d < 0 \<and> 0 < b ! c \<and> 0 < a"
proof -
  let ?ds = "debtors_of b" and ?cs = "creditors_of b"
  have pd: "all_pos ?ds" and pc: "all_pos ?cs"
    by (auto simp: all_pos_def debtors_of_iff creditors_of_iff)
  from assms have m: "(d, a, c) \<in> set (greedy False ?ds ?cs)" by (simp add: desktop_matching_def)
  from greedy_pos [OF pd pc m] have "0 < a" .
  moreover from greedy_members [OF m] have "d \<in> fst ` set (debtors_of b)" "c \<in> fst ` set (creditors_of b)"
    by simp_all
  ultimately show ?thesis
    by (auto simp: debtors_of_iff creditors_of_iff)
qed

lemma web_in_range: "length b \<le> length names \<Longrightarrow> in_range (length names) (web_matching b)"
  unfolding in_range_def using web_matching_facts [of _ _ _ b] by fastforce

lemma desktop_in_range: "length b \<le> length names \<Longrightarrow> in_range (length names) (desktop_matching b)"
  unfolding in_range_def using desktop_matching_facts [of _ _ _ b] by fastforce

lemma length_filter_enumerate:
  "length (filter (\<lambda>(i, x). Q x) (enumerate n xs)) = length (filter Q xs)"
  by (induction xs arbitrary: n) simp_all

lemma length_split_sign:
  "length (filter (\<lambda>x. x < 0) xs) + length (filter (\<lambda>x. 0 < x) xs)
   = length (filter (\<lambda>x. x \<noteq> (0::real)) xs)"
  by (induction xs) auto

lemma nonzero_count_eq:
  "length (debtors_of b) + length (creditors_of b) = nonzero_count b"
  using length_split_sign [of b]
  by (simp add: debtors_of_def creditors_of_def nonzero_count_def length_filter_enumerate)

lemma web_matching_length: "int (length (web_matching b)) \<le> max 0 (int (nonzero_count b) - 1)"
  using greedy_length [of True "sort_desc (debtors_of b)" "sort_desc (creditors_of b)"]
    nonzero_count_eq [of b]
  by (simp add: web_matching_def length_sort_desc)

lemma desktop_matching_length: "int (length (desktop_matching b)) \<le> max 0 (int (nonzero_count b) - 1)"
  using greedy_length [of False "debtors_of b" "creditors_of b"] nonzero_count_eq [of b]
  by (simp add: desktop_matching_def)

lemma loops_exit:
  "(case settle_loop names i j ds cs lines of
      Inl e \<Rightarrow> e = IndexError
    | Inr (i', j', lines') \<Rightarrow>
        (length ds \<le> i' \<or> length cs \<le> j') \<and>
        length lines' \<le> length lines + ((length ds - i) + (length cs - j))) \<and>
   (case split_loop names i j ds cs lines of
      Inl e \<Rightarrow> e = IndexError
    | Inr (i', j', lines') \<Rightarrow>
        (length ds \<le> i' \<or> length cs \<le> j') \<and>
        length lines' \<le> length lines + ((length ds - i) + (length cs - j)))"
proof
  have "length (greedy True (drop i ds) (drop j cs)) \<le> (length ds - i) + (length cs - j)"
    using greedy_length [of True "drop i ds" "drop j cs"] by simp
  with settle_loop_greedy [of names i ds j cs lines]
  show "case settle_loop names i j ds cs lines of
      Inl e \<Rightarrow> e = IndexError
    | Inr (i', j', lines') \<Rightarrow>
        (length ds \<le> i' \<or> length cs \<le> j') \<and>
        length lines' \<le> length lines + ((length ds - i) + (length cs - j))"
    by (cases "in_range (length names) (greedy True (drop i ds) (drop j cs))") auto
next
  have "length (greedy False (drop i ds) (drop j cs)) \<le> (length ds - i) + (length cs - j)"
    using greedy_length [of False "drop i ds" "drop j cs"] by simp
  with split_loop_greedy [of names i ds j cs lines]
  show "case split_loop names i j ds cs lines of
      Inl e \<Rightarrow> e = IndexError
    | Inr (i', j', lines') \<Rightarrow>
        (length ds \<le> i' \<or> length cs \<le> j') \<and>
        length lines' \<le> length lines + ((length ds - i) + (length cs - j))"
    by (cases "in_range (length names) (greedy False (drop i ds) (drop j cs))") auto
qed

lemma balances_of_nth:
  "length (balances_of paid owed) = min (length paid) (length owed) \<and>
   (\<forall>k < length (balances_of paid owed).
      balances_of paid owed ! k = py_round2 (paid ! k - owed ! k))"
  by (simp add: balances_of_def)

lemma sound_render_web:
  assumes "(d, a, c) \<in> set (web_matching b)" and "in_range (length names) (web_matching b)"
  shows "sound_transfer b names (render names (d, a, c)) \<and> 0 < pay_amt (render names (d, a, c))"
proof -
  from web_matching_facts [OF assms(1)]
  have f: "d < length b" "c < length b" "b ! d < 0" "0 < b ! c" "0 < a" by simp_all
  from assms have r: "d < length names" "c < length names" by (auto simp: in_range_def)
  from f r have "\<exists>d' \<in> {..<length b}. \<exists>c' \<in> {..<length b}.
      b ! d' < 0 \<and> 0 < b ! c' \<and> d' < length names \<and> c' < length names \<and>
      names ! d = names ! d' \<and> names ! c = names ! c'"
    by (intro bexI [where x = d] bexI [where x = c]) simp_all
  with f show ?thesis
    by (simp add: sound_transfer_def render_def)
qed

lemma sound_render_desktop:
  assumes "(d, a, c) \<in> set (desktop_matching b)" and "in_range (length names) (desktop_matching b)"
  shows "sound_transfer b names (render names (d, a, c)) \<and> 0 < pay_amt (render names (d, a, c))"
proof -
  from desktop_matching_facts [OF assms(1)]
  have f: "d < length b" "c < length b" "b ! d < 0" "0 < b ! c" "0 < a" by simp_all
  from assms have r: "d < length names" "c < length names" by (auto simp: in_range_def)
  from f r have "\<exists>d' \<in> {..<length b}. \<exists>c' \<in> {..<length b}.
      b ! d' < 0 \<and> 0 < b ! c' \<and> d' < length names \<and> c' < length names \<and>
      names ! d = names ! d' \<and> names ! c = names ! c'"
    by (intro bexI [where x = d] bexI [where x = c]) simp_all
  with f show ?thesis
    by (simp add: sound_transfer_def render_def)
qed

lemma sound_transfer_distinct:
  assumes "distinct names" and "sound_transfer balances names t"
  shows "payer t \<noteq> payee t \<and>
         (\<forall>k < length balances. k < length names \<longrightarrow> balances ! k = 0 \<longrightarrow>
            names ! k \<noteq> payer t \<and> names ! k \<noteq> payee t)"
proof -
  from assms(2) obtain d c where dc: "d < length balances" "c < length balances"
    "balances ! d < 0" "0 < balances ! c" "d < length names" "c < length names"
    "payer t = names ! d" "payee t = names ! c"
    by (auto simp: sound_transfer_def)
  from dc have "d \<noteq> c" by auto
  with assms(1) dc have "payer t \<noteq> payee t" by (simp add: nth_eq_iff_index_eq)
  moreover have "names ! k \<noteq> payer t \<and> names ! k \<noteq> payee t"
    if "k < length names" "balances ! k = 0" for k
  proof -
    from that dc have "k \<noteq> d" "k \<noteq> c" by auto
    with assms(1) that dc show ?thesis by (simp add: nth_eq_iff_index_eq)
  qed
  ultimately show ?thesis by blast
qed





lemma enumerate_increasing: "sorted_wrt (\<lambda>x y. fst x < fst y) (enumerate n xs)"
  by (induction xs arbitrary: n) (auto simp: in_set_enumerate_eq)

lemma creditors_increasing: "sorted_wrt (\<lambda>x y. fst x < fst y) (creditors_of b)"
  unfolding creditors_of_def by (intro sorted_wrt_filter enumerate_increasing)

lemma debtors_increasing: "sorted_wrt (\<lambda>x y. fst x < fst y) (debtors_of b)"
proof -
  have "sorted_wrt (\<lambda>x y. fst x < fst y) (filter (\<lambda>(i, bal). bal < 0) (enumerate 0 b))"
    by (intro sorted_wrt_filter enumerate_increasing)
  then show ?thesis
    by (simp add: debtors_of_def sorted_wrt_map case_prod_unfold)
qed

lemma sorted_lex:
  fixes f :: "'a \<Rightarrow> real"
  shows "sorted (map f ys) \<Longrightarrow> (\<And>k. sorted_wrt R (filter (\<lambda>y. f y = k) ys)) \<Longrightarrow>
         sorted_wrt (\<lambda>x y. f x < f y \<or> (f x = f y \<and> R x y)) ys"
proof (induction ys)
  case Nil
  then show ?case by simp
next
  case (Cons x ys)
  have tl: "sorted_wrt R (filter (\<lambda>y. f y = k) ys)" for k
    using Cons.prems(2) [of k] by (cases "f x = k") simp_all
  from Cons.prems(1) have s: "sorted (map f ys)" and le: "\<forall>y \<in> set ys. f x \<le> f y" by auto
  have "f x < f y \<or> (f x = f y \<and> R x y)" if "y \<in> set ys" for y
  proof (cases "f x = f y")
    case True
    from Cons.prems(2) [of "f x"] that True have "R x y" by auto
    with True show ?thesis by simp
  next
    case False
    with le that show ?thesis by force
  qed
  with Cons.IH [OF s tl] show ?case by simp
qed

lemma sort_desc_lex:
  assumes "sorted_wrt (\<lambda>x y. fst x < fst y) xs"
  shows "sorted_wrt (\<lambda>x y. snd y < snd x \<or> (snd y = snd x \<and> fst x < fst y)) (sort_desc xs)"
proof -
  let ?f = "\<lambda>x :: nat \<times> real. - snd x"
  have a: "sorted (map ?f (sort_key ?f xs))" by (rule sorted_sort_key)
  have b: "sorted_wrt (\<lambda>x y. fst x < fst y) (filter (\<lambda>y. ?f y = k) (sort_key ?f xs))" for k
    unfolding sort_key_stable by (intro sorted_wrt_filter assms)
  from sorted_lex [of ?f "sort_key ?f xs" "\<lambda>x y. fst x < fst y", OF a b]
  show ?thesis
    by (simp add: sort_desc_def) (erule sorted_wrt_mono_rel [rotated], auto)
qed

lemma web_matching_largest_first:
  "sorted_wrt (\<lambda>(d, a, c) (d', a', c'). b ! d \<le> b ! d' \<and> b ! c' \<le> b ! c) (web_matching b)"
proof -
  let ?ds = "sort_desc (debtors_of b)" and ?cs = "sort_desc (creditors_of b)"
  have d: "sorted_wrt (\<lambda>x y. - b ! fst y \<le> - b ! fst x) ?ds"
    by (rule sorted_wrt_mono_rel [OF _ sort_desc_lex [OF debtors_increasing]])
       (auto simp: set_sort_desc debtors_of_iff)
  have c: "sorted_wrt (\<lambda>x y. b ! fst y \<le> b ! fst x) ?cs"
    by (rule sorted_wrt_mono_rel [OF _ sort_desc_lex [OF creditors_increasing]])
       (auto simp: set_sort_desc creditors_of_iff)
  from greedy_order [of "\<lambda>k. - b ! k" ?ds "\<lambda>k. b ! k" ?cs True, OF d c]
  show ?thesis by (simp add: web_matching_def case_prod_unfold)
qed














lemma idx_fold_Some:
  "fold (\<lambda>(i, nm) m. m(nm \<mapsto> i)) (enumerate n xs) m p = Some k \<Longrightarrow>
   m p = Some k \<or> (n \<le> k \<and> k < n + length xs \<and> xs ! (k - n) = p)"
proof (induction xs arbitrary: n m)
  case Nil
  then show ?case by simp
next
  case (Cons x xs)
  from Cons.prems have "fold (\<lambda>(i, nm) m. m(nm \<mapsto> i)) (enumerate (Suc n) xs) (m(x \<mapsto> n)) p = Some k"
    by (simp del: fun_upd_apply)
  from Cons.IH [OF this]
  show ?case by (auto simp: Suc_diff_le split: if_splits)
qed

lemma idx_fold_None:
  "fold (\<lambda>(i, nm) m. m(nm \<mapsto> i)) (enumerate n xs) m p = None \<longleftrightarrow> m p = None \<and> p \<notin> set xs"
proof (induction xs arbitrary: n m)
  case Nil
  then show ?case by simp
next
  case (Cons x xs)
  have "fold (\<lambda>(i, nm) m. m(nm \<mapsto> i)) (enumerate n (x # xs)) m p
        = fold (\<lambda>(i, nm) m. m(nm \<mapsto> i)) (enumerate (Suc n) xs) (m(x \<mapsto> n)) p"
    by (simp del: fun_upd_apply)
  then show ?case using Cons.IH [of "Suc n" "m(x \<mapsto> n)"] by auto
qed

lemma idx_of_Some: "idx_of names p = Some k \<Longrightarrow> k < length names \<and> names ! k = p"
  using idx_fold_Some [of 0 names Map.empty p k] by (simp add: idx_of_def)

lemma idx_of_None: "idx_of names p = None \<longleftrightarrow> p \<notin> set names"
  by (simp add: idx_of_def idx_fold_None)

lemma add_shares_nth:
  assumes r: "\<forall>p k. idx p = Some k \<longrightarrow> k < n"
  shows "length owed = n \<Longrightarrow>
         \<exists>owed'. add_shares idx share ps owed = Inr owed' \<and> length owed' = n \<and>
           (\<forall>k < n. owed' ! k = fold (\<lambda>p a. if idx p = Some k then a + share else a) ps (owed ! k))"
proof (induction ps arbitrary: owed)
  case Nil
  then show ?case by simp
next
  case (Cons p ps)
  show ?case
  proof (cases "idx p")
    case None
    with Cons.IH [OF Cons.prems] show ?thesis by simp
  next
    case (Some j)
    with r have j: "j < n" by simp
    let ?o = "owed[j := owed ! j + share]"
    have l: "length ?o = n" using Cons.prems by simp
    from Cons.IH [OF l] obtain owed' where
      a: "add_shares idx share ps ?o = Inr owed'" and b: "length owed' = n"
      and c: "\<forall>k < n. owed' ! k = fold (\<lambda>p a. if idx p = Some k then a + share else a) ps (?o ! k)"
      by blast
    have "add_shares idx share (p # ps) owed = Inr owed'"
      using Some j Cons.prems a by simp
    moreover have "\<forall>k < n. owed' ! k
        = fold (\<lambda>p a. if idx p = Some k then a + share else a) (p # ps) (owed ! k)"
      using c Some j Cons.prems by (auto simp: nth_list_update)
    ultimately show ?thesis using b by blast
  qed
qed

lemma itemized_loop_nth:
  assumes r: "\<forall>p k. idx p = Some k \<longrightarrow> k < n"
  shows "length owed = n \<Longrightarrow>
         \<exists>owed'. itemized_loop idx items owed tot = Inr (owed', total_of items tot) \<and>
           length owed' = n \<and> (\<forall>k < n. owed' ! k = owed_acc idx k items (owed ! k))"
proof (induction items arbitrary: owed tot)
  case Nil
  then show ?case by (simp add: owed_acc_def total_of_def)
next
  case (Cons it items)
  show ?case
  proof (cases "valid_item it")
    case False
    then have "amount it \<le> 0 \<or> participants it = []" by (simp add: valid_item_def)
    with Cons.IH [OF Cons.prems, of tot] False show ?thesis
      by (simp add: owed_acc_def total_of_def)
  next
    case True
    then have v: "\<not> (amount it \<le> 0 \<or> participants it = [])" by (simp add: valid_item_def)
    from add_shares_nth [OF r Cons.prems, of "share_of it" "participants it"]
    obtain o1 where a: "add_shares idx (share_of it) (participants it) owed = Inr o1"
      and l: "length o1 = n"
      and c: "\<forall>k < n. o1 ! k
               = fold (\<lambda>p a. if idx p = Some k then a + share_of it else a) (participants it) (owed ! k)"
      by blast
    from Cons.IH [OF l, of "tot + amount it"] obtain owed' where
      d: "itemized_loop idx items o1 (tot + amount it) = Inr (owed', total_of items (tot + amount it))"
      and e: "length owed' = n" and f: "\<forall>k < n. owed' ! k = owed_acc idx k items (o1 ! k)"
      by blast
    have "itemized_loop idx (it # items) owed tot = Inr (owed', total_of (it # items) tot)"
      using v a d True by (simp add: share_of_def total_of_def)
    moreover have "\<forall>k < n. owed' ! k = owed_acc idx k (it # items) (owed ! k)"
      using c f True by (simp add: owed_acc_def)
    ultimately show ?thesis using e by blast
  qed
qed

lemma calc_with_itemized_returns:
  "\<exists>owed. calc_with_itemized items paid names = Inr (total_of items 0, owed, balances_of paid owed) \<and>
          length owed = length names \<and>
          (\<forall>k < length names. owed ! k = py_round2 (owed_acc (idx_of names) k items 0))"
proof -
  have r: "\<forall>p k. idx_of names p = Some k \<longrightarrow> k < length names" by (simp add: idx_of_Some)
  have l0: "length (replicate (length names) (0::real)) = length names" by simp
  from itemized_loop_nth [OF r l0, of items 0]
  obtain o1 where a: "itemized_loop (idx_of names) items (replicate (length names) 0) 0
             = Inr (o1, total_of items 0)"
    and l: "length o1 = length names"
    and c: "\<forall>k < length names. o1 ! k = owed_acc (idx_of names) k items 0"
    by auto
  let ?owed = "map py_round2 o1"
  have "calc_with_itemized items paid names = Inr (total_of items 0, ?owed, balances_of paid ?owed)"
    using a by (simp add: calc_with_itemized_def Let_def)
  moreover have "length ?owed = length names" using l by simp
  moreover have "\<forall>k < length names. ?owed ! k = py_round2 (owed_acc (idx_of names) k items 0)"
    using l c by simp
  ultimately show ?thesis by blast
qed

section \<open>Claims\<close>

text \<open>
  Claim C3, as amended. The number of transfers emitted by the web application's \<open>settle\<close>
  and by the desktop application's settlement loop is at most the number of nonzero
  balances minus one when some balance is nonzero, and is zero when every balance is
  zero (the bound, read in the integers, is then \<open>-1\<close> and cannot hold).
\<close>

theorem transfer_count_bound:
  "(settle balances names = Inr lines \<longrightarrow>
      int (length lines) \<le> max 0 (int (nonzero_count balances) - 1)) \<and>
   (calculate_split total_people total_amount names contributions = Inr (bal, lines') \<longrightarrow>
      int (length lines') \<le> max 0 (int (nonzero_count bal) - 1))"
proof (intro conjI impI)
  assume "settle balances names = Inr lines"
  then have "lines = map (render names) (web_matching balances)"
    by (simp add: settle_web split: if_splits)
  then show "int (length lines) \<le> max 0 (int (nonzero_count balances) - 1)"
    using web_matching_length [of balances] by simp
next
  assume "calculate_split total_people total_amount names contributions = Inr (bal, lines')"
  then have "lines' = map (render names) (desktop_matching bal)"
    by (auto simp: split_desktop Let_def split: if_splits)
  then show "int (length lines') \<le> max 0 (int (nonzero_count bal) - 1)"
    using desktop_matching_length [of bal] by simp
qed

theorem transfer_count_bound_witness:
  "settle [2, -1, -1, 0] [''A'', ''B'', ''C'', ''D'']
     = Inr [\<lparr>payer = ''B'', pay_amt = 1, payee = ''A''\<rparr>, \<lparr>payer = ''C'', pay_amt = 1, payee = ''A''\<rparr>] \<and>
   int (length [\<lparr>payer = ''B'', pay_amt = 1, payee = ''A''\<rparr>, \<lparr>payer = ''C'', pay_amt = 1, payee = ''A''\<rparr>])
     \<le> max 0 (int (nonzero_count [2, -1, -1, 0]) - 1) \<and>
   calculate_split 3 6 [''A'', ''B'', ''C''] [1, 0, 5]
     = Inr ([-1, -2, 3], [\<lparr>payer = ''A'', pay_amt = 1, payee = ''C''\<rparr>, \<lparr>payer = ''B'', pay_amt = 2, payee = ''C''\<rparr>]) \<and>
   int (length [\<lparr>payer = ''A'', pay_amt = 1, payee = ''C''\<rparr>, \<lparr>payer = ''B'', pay_amt = 2, payee = ''C''\<rparr>])
     \<le> max 0 (int (nonzero_count [-1, -2, 3]) - 1)"
proof -
  have a: "settle [2, -1, -1, 0] [''A'', ''B'', ''C'', ''D'']
     = Inr [\<lparr>payer = ''B'', pay_amt = 1, payee = ''A''\<rparr>, \<lparr>payer = ''C'', pay_amt = 1, payee = ''A''\<rparr>]"
    by code_simp
  have b: "calculate_split 3 6 [''A'', ''B'', ''C''] [1, 0, 5]
     = Inr ([-1, -2, 3], [\<lparr>payer = ''A'', pay_amt = 1, payee = ''C''\<rparr>, \<lparr>payer = ''B'', pay_amt = 2, payee = ''C''\<rparr>])"
    by code_simp
  from transfer_count_bound [where balances = "[2, -1, -1, 0]"
      and names = "[''A'', ''B'', ''C'', ''D'']"
      and lines = "[\<lparr>payer = ''B'', pay_amt = 1, payee = ''A''\<rparr>, \<lparr>payer = ''C'', pay_amt = 1, payee = ''A''\<rparr>]"] a
  have c: "int (length [\<lparr>payer = ''B'', pay_amt = 1, payee = ''A''\<rparr>, \<lparr>payer = ''C'', pay_amt = 1, payee = ''A''\<rparr>])
     \<le> max 0 (int (nonzero_count [2, -1, -1, 0]) - 1)" by blast
  from transfer_count_bound [where total_people = 3 and total_amount = 6
      and names = "[''A'', ''B'', ''C'']" and contributions = "[1, 0, 5]"
      and bal = "[-1, -2, 3]"
      and lines' = "[\<lparr>payer = ''A'', pay_amt = 1, payee = ''C''\<rparr>, \<lparr>payer = ''B'', pay_amt = 2, payee = ''C''\<rparr>]"] b
  have d: "int (length [\<lparr>payer = ''A'', pay_amt = 1, payee = ''C''\<rparr>, \<lparr>payer = ''B'', pay_amt = 2, payee = ''C''\<rparr>])
     \<le> max 0 (int (nonzero_count [-1, -2, 3]) - 1)" by blast
  from a b c d show ?thesis by blast
qed

theorem transfer_count_counterexample:
  "settle [0, 0] [''A'', ''B''] = Inr [] \<and>
   \<not> int (length ([] :: transfer list)) \<le> int (nonzero_count [0, 0]) - 1"
proof
  show "settle [0, 0] [''A'', ''B''] = Inr []" by code_simp
  show "\<not> int (length ([] :: transfer list)) \<le> int (nonzero_count [0, 0]) - 1"
    by (simp add: nonzero_count_def)
qed

text \<open>
  Claim C9. Both settlement loops are total functions (their termination is proved with
  the measure \<open>(len(debtors) - i) + (len(creditors) - j)\<close>, which every iteration
  decreases). From any state each loop either stops on the IndexError of a name lookup
  or exits with one cursor at the end of its list, having emitted at most
  \<open>(len(debtors) - i) + (len(creditors) - j)\<close> further lines; with a name for every
  balance, \<open>settle\<close> and \<open>calculate_split\<close> return a settlement.
\<close>

theorem settlement_terminates:
  "(case settle_loop names i j ds cs lines of
      Inl e \<Rightarrow> e = IndexError
    | Inr (i', j', lines') \<Rightarrow>
        (length ds \<le> i' \<or> length cs \<le> j') \<and>
        length lines' \<le> length lines + ((length ds - i) + (length cs - j))) \<and>
   (case split_loop names i j ds cs lines of
      Inl e \<Rightarrow> e = IndexError
    | Inr (i', j', lines') \<Rightarrow>
        (length ds \<le> i' \<or> length cs \<le> j') \<and>
        length lines' \<le> length lines + ((length ds - i) + (length cs - j))) \<and>
   (length balances \<le> length names \<longrightarrow> (\<exists>out. settle balances names = Inr out)) \<and>
   (total_people \<noteq> 0 \<longrightarrow> int (length names) = total_people \<longrightarrow>
    int (length contributions) = total_people \<longrightarrow>
      (\<exists>bal out. calculate_split total_people total_amount names contributions
                    = Inr (bal, out)))"
proof (intro conjI impI)
  show "case settle_loop names i j ds cs lines of
      Inl e \<Rightarrow> e = IndexError
    | Inr (i', j', lines') \<Rightarrow>
        (length ds \<le> i' \<or> length cs \<le> j') \<and>
        length lines' \<le> length lines + ((length ds - i) + (length cs - j))"
    by (rule loops_exit [THEN conjunct1])
  show "case split_loop names i j ds cs lines of
      Inl e \<Rightarrow> e = IndexError
    | Inr (i', j', lines') \<Rightarrow>
        (length ds \<le> i' \<or> length cs \<le> j') \<and>
        length lines' \<le> length lines + ((length ds - i) + (length cs - j))"
    by (rule loops_exit [THEN conjunct2])
next
  assume "length balances \<le> length names"
  then show "\<exists>out. settle balances names = Inr out"
    by (simp add: settle_web web_in_range)
next
  assume "total_people \<noteq> 0" "int (length names) = total_people"
    "int (length contributions) = total_people"
  then show "\<exists>bal out. calculate_split total_people total_amount names contributions
                      = Inr (bal, out)"
    by (simp add: split_desktop Let_def desktop_in_range)
qed

theorem settlement_terminates_witness:
  "length [2, -1, -1, 0 :: real] \<le> length [''A'', ''B'', ''C'', ''D''] \<and>
   (\<exists>out. settle [2, -1, -1, 0] [''A'', ''B'', ''C'', ''D''] = Inr out) \<and>
   (3 :: int) \<noteq> 0 \<and> int (length [''A'', ''B'', ''C'']) = 3 \<and> int (length [1, 0, 5 :: real]) = 3 \<and>
   (\<exists>bal out. calculate_split 3 6 [''A'', ''B'', ''C''] [1, 0, 5] = Inr (bal, out))"
  using settlement_terminates [where balances = "[2, -1, -1, 0]"
      and names = "[''A'', ''B'', ''C'', ''D'']" and total_people = 0]
    settlement_terminates [where balances = "[]" and total_people = 3 and total_amount = 6
      and names = "[''A'', ''B'', ''C'']" and contributions = "[1, 0, 5]"]
  by simp

text \<open>
  Claim C6, as amended. \<open>calc_with_equal_share\<close> validates nothing: with at least one
  name it returns, for every total (negative ones included), one owed entry per name,
  each equal to \<open>total / n\<close>; with no name it fails with ZeroDivisionError. The
  counterexample is a negative total that is accepted.
\<close>

theorem calc_with_equal_share_unchecked:
  "(names \<noteq> [] \<longrightarrow>
      (\<exists>owed_each balances.
          calc_with_equal_share total_amount paid names = Inr (owed_each, balances) \<and>
          length owed_each = length names \<and>
          (\<forall>x \<in> set owed_each. x = total_amount / real (length names)))) \<and>
   (names = [] \<longrightarrow> calc_with_equal_share total_amount paid names = Inl ZeroDivisionError)"
  by (simp add: calc_with_equal_share_def Let_def)

theorem calc_with_equal_share_unchecked_witness:
  "[''A'', ''B''] \<noteq> [] \<and>
   (\<exists>owed_each balances.
       calc_with_equal_share (-6) [0, 0] [''A'', ''B''] = Inr (owed_each, balances) \<and>
       length owed_each = length [''A'', ''B''] \<and>
       (\<forall>x \<in> set owed_each. x = -6 / real (length [''A'', ''B'']))) \<and>
   calc_with_equal_share 10 [] [] = Inl ZeroDivisionError"
  using calc_with_equal_share_unchecked [of "[''A'', ''B'']" "-6" "[0, 0]"]
    calc_with_equal_share_unchecked [of "[]" 10 "[]"]
  by simp

theorem calc_with_equal_share_counterexample:
  "calc_with_equal_share (-6) [0, 0] [''A'', ''B''] = Inr ([-3, -3], [3, 3])"
  by code_simp

text \<open>
  Claim C7, as amended. Neither calculation checks lengths, and a length mismatch makes
  neither fail. The itemized calculation returns on every input; the equal split returns
  whenever there is at least one name (with no name it raises ZeroDivisionError, whatever
  the lengths). In both, \<open>owed\<close> has one entry per name, and \<open>zip\<close> stops at the shorter
  of \<open>paid\<close> and \<open>owed\<close>: the balance vector has the length of the shorter one and
  \<open>balances[i] = round(paid[i] - owed[i], 2)\<close> for every index it has. The counterexample
  has three payments and two names.
\<close>

theorem balances_follow_shorter_list:
  "(names \<noteq> [] \<longrightarrow>
      (\<exists>owed balances. calc_with_equal_share total_amount paid names = Inr (owed, balances) \<and>
         length owed = length names \<and>
         length balances = min (length paid) (length owed) \<and>
         (\<forall>k < length balances. balances ! k = py_round2 (paid ! k - owed ! k)))) \<and>
   (\<exists>tot owed' balances'. calc_with_itemized items paid names = Inr (tot, owed', balances') \<and>
      length owed' = length names \<and>
      length balances' = min (length paid) (length owed') \<and>
      (\<forall>k < length balances'. balances' ! k = py_round2 (paid ! k - owed' ! k)))"
proof (intro conjI impI)
  assume ne: "names \<noteq> []"
  let ?owed = "replicate (length names) (total_amount / real (length names))"
  have "calc_with_equal_share total_amount paid names = Inr (?owed, balances_of paid ?owed)"
    using ne by (simp add: calc_with_equal_share_def Let_def)
  moreover have "length ?owed = length names" by simp
  moreover note balances_of_nth [of paid ?owed]
  ultimately show "\<exists>owed balances. calc_with_equal_share total_amount paid names = Inr (owed, balances) \<and>
         length owed = length names \<and>
         length balances = min (length paid) (length owed) \<and>
         (\<forall>k < length balances. balances ! k = py_round2 (paid ! k - owed ! k))"
    by blast
next
  from calc_with_itemized_returns [of items paid names] obtain owed where
    a: "calc_with_itemized items paid names = Inr (total_of items 0, owed, balances_of paid owed)"
    and l: "length owed = length names" by blast
  with balances_of_nth [of paid owed]
  show "\<exists>tot owed' balances'. calc_with_itemized items paid names = Inr (tot, owed', balances') \<and>
      length owed' = length names \<and>
      length balances' = min (length paid) (length owed') \<and>
      (\<forall>k < length balances'. balances' ! k = py_round2 (paid ! k - owed' ! k))"
    by blast
qed

theorem balances_follow_shorter_list_witness:
  "[''A'', ''B''] \<noteq> [] \<and>
   calc_with_equal_share 2 [5, 7, 9] [''A'', ''B''] = Inr ([1, 1], [4, 6]) \<and>
   length [1, 1 :: real] = length [''A'', ''B''] \<and>
   length [4, 6 :: real] = min (length [5, 7, 9 :: real]) (length [1, 1 :: real]) \<and>
   [4, 6] ! 0 = py_round2 ([5, 7, 9] ! 0 - [1, 1] ! 0) \<and>
   [4, 6] ! 1 = py_round2 ([5, 7, 9] ! 1 - [1, 1] ! 1) \<and>
   calc_with_itemized
     [\<lparr>name = ''dinner'', amount = 100, participants = [''A'', ''B'']\<rparr>,
      \<lparr>name = ''taxi'', amount = 50, participants = [''B'', ''C'']\<rparr>]
     [100, 0] [''A'', ''B'', ''C''] = Inr (150, [50, 75, 25], [50, -75]) \<and>
   length [50, 75, 25 :: real] = length [''A'', ''B'', ''C''] \<and>
   length [50, -75 :: real] = min (length [100, 0 :: real]) (length [50, 75, 25 :: real]) \<and>
   [50, -75] ! 1 = py_round2 ([100, 0] ! 1 - [50, 75, 25] ! 1)"
proof -
  let ?items = "[\<lparr>name = ''dinner'', amount = 100, participants = [''A'', ''B'']\<rparr>,
                 \<lparr>name = ''taxi'', amount = 50, participants = [''B'', ''C'']\<rparr>]"
  have a: "calc_with_equal_share 2 [5, 7, 9] [''A'', ''B''] = Inr ([1, 1], [4, 6])"
    by code_simp
  have b: "calc_with_itemized ?items [100, 0] [''A'', ''B'', ''C''] = Inr (150, [50, 75, 25], [50, -75])"
    by code_simp
  have ne: "[''A'', ''B''] \<noteq> []" by simp
  from balances_follow_shorter_list [of "[''A'', ''B'']" 2 "[5, 7, 9]" ?items] ne a
  have c: "length [1, 1 :: real] = length [''A'', ''B'']"
      "length [4, 6 :: real] = min (length [5, 7, 9 :: real]) (length [1, 1 :: real])"
      "\<forall>k < length [4, 6 :: real]. [4, 6] ! k = py_round2 ([5, 7, 9] ! k - [1, 1] ! k)"
    by auto
  from balances_follow_shorter_list [of "[''A'', ''B'', ''C'']" 0 "[100, 0]" ?items] b
  have d: "length [50, 75, 25 :: real] = length [''A'', ''B'', ''C'']"
      "length [50, -75 :: real] = min (length [100, 0 :: real]) (length [50, 75, 25 :: real])"
      "\<forall>k < length [50, -75 :: real]. [50, -75] ! k = py_round2 ([100, 0] ! k - [50, 75, 25] ! k)"
    by auto
  have l: "0 < length [4, 6 :: real]" "1 < length [4, 6 :: real]" "1 < length [50, -75 :: real]"
    by simp_all
  from c(3) l have c0: "[4, 6] ! 0 = py_round2 ([5, 7, 9] ! 0 - [1, 1] ! 0)"
    and c1: "[4, 6] ! 1 = py_round2 ([5, 7, 9] ! 1 - [1, 1] ! 1)" by blast+
  from d(3) l have d1: "[50, -75] ! 1 = py_round2 ([100, 0] ! 1 - [50, 75, 25] ! 1)" by blast
  from ne a b c(1,2) d(1,2) c0 c1 d1 show ?thesis by (intro conjI)
qed

theorem balances_follow_shorter_list_counterexample:
  "calc_with_equal_share 2 [5, 7, 9] [''A'', ''B''] = Inr ([1, 1], [4, 6])"
  by code_simp

text \<open>
  Claim C8. In \<open>calc_with_itemized\<close> a name that an item lists and the participant list
  lacks is no key of \<open>idx\<close>, so the guard \<open>if person in idx\<close> skips it: its share is added
  to no accumulator and no error is raised. The function returns on every input;
  \<open>total_amount\<close> is the sum of the amounts of the items that take part, and \<open>owed[k]\<close>
  is the rounded sum of the shares of the listed names that \<open>idx\<close> sends to \<open>k\<close>. The
  share of an item is still its amount divided by the number of all names it lists, so
  the owed amounts exclude the dropped share while \<open>total_amount\<close> includes the whole item.
\<close>

theorem unknown_participant_dropped:
  "\<exists>owed. calc_with_itemized items paid names = Inr (total_of items 0, owed, balances_of paid owed) \<and>
          length owed = length names \<and>
          (\<forall>k < length names. owed ! k = py_round2 (owed_acc (idx_of names) k items 0)) \<and>
          (\<forall>p. p \<notin> set names \<longrightarrow> idx_of names p = None)"
  using calc_with_itemized_returns [of items paid names] idx_of_None [of names] by blast

theorem unknown_participant_dropped_witness:
  "calc_with_itemized [\<lparr>name = ''dinner'', amount = 100, participants = [''A'', ''Z'']\<rparr>] [100] [''A'']
     = Inr (100, [50], [50]) \<and>
   ''Z'' \<notin> set [''A''] \<and> idx_of [''A''] ''Z'' = None \<and>
   total_of [\<lparr>name = ''dinner'', amount = 100, participants = [''A'', ''Z'']\<rparr>] 0 = 100 \<and>
   py_round2 (owed_acc (idx_of [''A'']) 0
      [\<lparr>name = ''dinner'', amount = 100, participants = [''A'', ''Z'']\<rparr>] 0) = 50"
proof -
  let ?items = "[\<lparr>name = ''dinner'', amount = 100, participants = [''A'', ''Z'']\<rparr>]"
  have a: "calc_with_itemized ?items [100] [''A''] = Inr (100, [50], [50])" by code_simp
  from unknown_participant_dropped [of ?items "[100]" "[''A'']"] a
  have "total_of ?items 0 = 100"
    and "[50] ! 0 = py_round2 (owed_acc (idx_of [''A'']) 0 ?items 0)"
    and "idx_of [''A''] ''Z'' = None"
    by auto
  with a show ?thesis by simp
qed

text \<open>
  Claim C10. Every transfer of a settlement, from the web application's \<open>settle\<close> or
  from the desktop loop, names as payer a participant whose input balance is strictly
  negative and as payee one whose input balance is strictly positive, and carries a
  strictly positive amount. Participants are positions of the input; with distinct names
  it follows that payer and payee of a transfer differ and that the name of a
  zero-balance participant occurs in no transfer.
\<close>

theorem transfers_are_sound:
  "(settle balances names = Inr lines \<longrightarrow>
      (\<forall>t \<in> set lines. sound_transfer balances names t \<and> 0 < pay_amt t)) \<and>
   (calculate_split total_people total_amount names contributions = Inr (bal, lines') \<longrightarrow>
      (\<forall>t \<in> set lines'. sound_transfer bal names t \<and> 0 < pay_amt t)) \<and>
   (distinct names \<longrightarrow> sound_transfer balances names t \<longrightarrow>
      payer t \<noteq> payee t \<and>
      (\<forall>k < length balances. k < length names \<longrightarrow> balances ! k = 0 \<longrightarrow>
         names ! k \<noteq> payer t \<and> names ! k \<noteq> payee t))"
proof (intro conjI impI ballI)
  fix u
  assume "settle balances names = Inr lines" and u: "u \<in> set lines"
  then have r: "in_range (length names) (web_matching balances)"
    and l: "lines = map (render names) (web_matching balances)"
    by (simp_all add: settle_web split: if_splits)
  from u l obtain d a c where "(d, a, c) \<in> set (web_matching balances)"
    and "u = render names (d, a, c)" by auto
  with sound_render_web [OF _ r] show "sound_transfer balances names u" and "0 < pay_amt u"
    by simp_all
next
  fix u
  assume "calculate_split total_people total_amount names contributions = Inr (bal, lines')"
    and u: "u \<in> set lines'"
  then have r: "in_range (length names) (desktop_matching bal)"
    and l: "lines' = map (render names) (desktop_matching bal)"
    by (auto simp: split_desktop Let_def split: if_splits)
  from u l obtain d a c where "(d, a, c) \<in> set (desktop_matching bal)"
    and "u = render names (d, a, c)" by auto
  with sound_render_desktop [OF _ r] show "sound_transfer bal names u" and "0 < pay_amt u"
    by simp_all
next
  assume "distinct names" and "sound_transfer balances names t"
  from sound_transfer_distinct [OF this]
  show "payer t \<noteq> payee t"
    and "\<forall>k < length balances. k < length names \<longrightarrow> balances ! k = 0 \<longrightarrow>
           names ! k \<noteq> payer t \<and> names ! k \<noteq> payee t"
    by simp_all
qed

theorem transfers_are_sound_witness:
  "settle [2, -1, -1, 0] [''A'', ''B'', ''C'', ''D'']
     = Inr [\<lparr>payer = ''B'', pay_amt = 1, payee = ''A''\<rparr>, \<lparr>payer = ''C'', pay_amt = 1, payee = ''A''\<rparr>] \<and>
   sound_transfer [2, -1, -1, 0] [''A'', ''B'', ''C'', ''D''] \<lparr>payer = ''B'', pay_amt = 1, payee = ''A''\<rparr> \<and>
   0 < pay_amt \<lparr>payer = ''B'', pay_amt = 1, payee = ''A''\<rparr> \<and>
   calculate_split 3 6 [''A'', ''B'', ''C''] [1, 0, 5]
     = Inr ([-1, -2, 3], [\<lparr>payer = ''A'', pay_amt = 1, payee = ''C''\<rparr>, \<lparr>payer = ''B'', pay_amt = 2, payee = ''C''\<rparr>]) \<and>
   sound_transfer [-1, -2, 3] [''A'', ''B'', ''C''] \<lparr>payer = ''B'', pay_amt = 2, payee = ''C''\<rparr> \<and>
   distinct [''A'', ''B'', ''C'', ''D''] \<and>
   payer \<lparr>payer = ''B'', pay_amt = 1, payee = ''A''\<rparr> \<noteq> payee \<lparr>payer = ''B'', pay_amt = 1, payee = ''A''\<rparr> \<and>
   [''A'', ''B'', ''C'', ''D''] ! 3 \<noteq> payer \<lparr>payer = ''B'', pay_amt = 1, payee = ''A''\<rparr> \<and>
   [''A'', ''B'', ''C'', ''D''] ! 3 \<noteq> payee \<lparr>payer = ''B'', pay_amt = 1, payee = ''A''\<rparr>"
proof -
  let ?t1 = "\<lparr>payer = ''B'', pay_amt = 1 :: real, payee = ''A''\<rparr>"
  let ?t2 = "\<lparr>payer = ''C'', pay_amt = 1 :: real, payee = ''A''\<rparr>"
  let ?u1 = "\<lparr>payer = ''A'', pay_amt = 1 :: real, payee = ''C''\<rparr>"
  let ?u2 = "\<lparr>payer = ''B'', pay_amt = 2 :: real, payee = ''C''\<rparr>"
  let ?n4 = "[''A'', ''B'', ''C'', ''D'']"
  let ?b4 = "[2, -1, -1, 0 :: real]"
  have a: "settle ?b4 ?n4 = Inr [?t1, ?t2]" by code_simp
  have b: "calculate_split 3 6 [''A'', ''B'', ''C''] [1, 0, 5] = Inr ([-1, -2, 3], [?u1, ?u2])"
    by code_simp
  have dn: "distinct ?n4" by simp
  note w = transfers_are_sound [where balances = ?b4 and names = ?n4 and lines = "[?t1, ?t2]"
      and t = ?t1 and total_people = 0]
  note v = transfers_are_sound [where balances = "[]" and names = "[''A'', ''B'', ''C'']"
      and total_people = 3 and total_amount = 6 and contributions = "[1, 0, 5]"
      and bal = "[-1, -2, 3]" and lines' = "[?u1, ?u2]"]
  from w a have s1: "sound_transfer ?b4 ?n4 ?t1 \<and> 0 < pay_amt ?t1" by simp
  from v b have s2: "sound_transfer [-1, -2, 3] [''A'', ''B'', ''C''] ?u2" by simp
  from w dn s1 have c: "payer ?t1 \<noteq> payee ?t1 \<and>
      (\<forall>k < length ?b4. k < length ?n4 \<longrightarrow> ?b4 ! k = 0 \<longrightarrow>
         ?n4 ! k \<noteq> payer ?t1 \<and> ?n4 ! k \<noteq> payee ?t1)" by blast
  have k: "3 < length ?b4" "3 < length ?n4" "?b4 ! 3 = 0" by simp_all
  from c k have c3: "?n4 ! 3 \<noteq> payer ?t1 \<and> ?n4 ! 3 \<noteq> payee ?t1" by blast
  from a b dn s1 s2 c c3 show ?thesis by blast
qed




text \<open>
  Claim C4, as amended. The web application's \<open>settle\<close> sorts debtors and creditors
  before matching: each sorted list holds the entries of the unsorted one, in descending
  order of amount, entries of equal amount in input order (so the order is fully
  determined), and the transfers come out largest-first: along the settlement the payers'
  debts and the payees' credits never increase. The desktop application's
  \<open>calculate_split\<close> does not sort; it walks both lists in input order, as the
  counterexample shows.
\<close>

theorem web_settle_sorts_largest_first:
  "set (sort_desc (debtors_of balances)) = set (debtors_of balances) \<and>
   length (sort_desc (debtors_of balances)) = length (debtors_of balances) \<and>
   set (sort_desc (creditors_of balances)) = set (creditors_of balances) \<and>
   length (sort_desc (creditors_of balances)) = length (creditors_of balances) \<and>
   sorted_wrt (\<lambda>x y. snd y < snd x \<or> (snd y = snd x \<and> fst x < fst y))
     (sort_desc (debtors_of balances)) \<and>
   sorted_wrt (\<lambda>x y. snd y < snd x \<or> (snd y = snd x \<and> fst x < fst y))
     (sort_desc (creditors_of balances)) \<and>
   (settle balances names = Inr lines \<longrightarrow>
      (\<exists>m. lines = map (render names) m \<and>
            sorted_wrt (\<lambda>(d, a, c) (d', a', c').
                          balances ! d \<le> balances ! d' \<and> balances ! c' \<le> balances ! c) m))"
proof (intro conjI impI)
  assume "settle balances names = Inr lines"
  then have "lines = map (render names) (web_matching balances)"
    by (simp add: settle_web split: if_splits)
  with web_matching_largest_first [of balances]
  show "\<exists>m. lines = map (render names) m \<and>
            sorted_wrt (\<lambda>(d, a, c) (d', a', c').
                          balances ! d \<le> balances ! d' \<and> balances ! c' \<le> balances ! c) m"
    by blast
qed (simp_all add: set_sort_desc length_sort_desc sort_desc_lex debtors_increasing
       creditors_increasing)

theorem web_settle_sorts_largest_first_witness:
  "settle [200, -100, -100] [''P1'', ''P2'', ''P3'']
     = Inr [\<lparr>payer = ''P2'', pay_amt = 100, payee = ''P1''\<rparr>,
            \<lparr>payer = ''P3'', pay_amt = 100, payee = ''P1''\<rparr>] \<and>
   (\<exists>m. [\<lparr>payer = ''P2'', pay_amt = 100, payee = ''P1''\<rparr>,
          \<lparr>payer = ''P3'', pay_amt = 100, payee = ''P1''\<rparr>] = map (render [''P1'', ''P2'', ''P3'']) m \<and>
        sorted_wrt (\<lambda>(d, a, c) (d', a', c').
                      [200, -100, -100 :: real] ! d \<le> [200, -100, -100] ! d' \<and>
                      [200, -100, -100 :: real] ! c' \<le> [200, -100, -100] ! c) m)"
proof -
  have a: "settle [200, -100, -100] [''P1'', ''P2'', ''P3'']
     = Inr [\<lparr>payer = ''P2'', pay_amt = 100, payee = ''P1''\<rparr>,
            \<lparr>payer = ''P3'', pay_amt = 100, payee = ''P1''\<rparr>]" by code_simp
  from a web_settle_sorts_largest_first [where balances = "[200, -100, -100]"
      and names = "[''P1'', ''P2'', ''P3'']"
      and lines = "[\<lparr>payer = ''P2'', pay_amt = 100, payee = ''P1''\<rparr>,
                    \<lparr>payer = ''P3'', pay_amt = 100, payee = ''P1''\<rparr>]"]
  show ?thesis by blast
qed

theorem desktop_does_not_sort_counterexample:
  "creditors_of [1, 3, -4] = [(0, 1), (1, 3)] \<and>
   sort_desc (creditors_of [1, 3, -4]) = [(1, 3), (0, 1)] \<and>
   calculate_split 3 12 [''A'', ''B'', ''C''] [5, 7, 0]
     = Inr ([1, 3, -4], [\<lparr>payer = ''C'', pay_amt = 1, payee = ''A''\<rparr>, \<lparr>payer = ''C'', pay_amt = 3, payee = ''B''\<rparr>]) \<and>
   settle [1, 3, -4] [''A'', ''B'', ''C'']
     = Inr [\<lparr>payer = ''C'', pay_amt = 3, payee = ''B''\<rparr>, \<lparr>payer = ''C'', pay_amt = 1, payee = ''A''\<rparr>]"
  by code_simp




end
